theory Spec2Isabelle
  imports Main "HOL-Library.Word"
begin

unbundle bit_operations_syntax

section \<open>Python values used by \<^verbatim>\<open>tcp_header.py\<close>\<close>

text \<open>
  A \<^verbatim>\<open>bytes\<close> object is a list of 8-bit words. Indexing with a non-negative index
  raises \<^verbatim>\<open>IndexError\<close> out of range; slicing never raises and is clamped to the
  object; \<^verbatim>\<open>struct.unpack\<close> raises \<^verbatim>\<open>struct.error\<close> when the buffer does not have
  the size of the format; \<^verbatim>\<open>list(None)\<close> raises \<^verbatim>\<open>TypeError\<close>. Python integers are
  unbounded: \<^typ>\<open>int\<close>.
\<close>

type_synonym byte = "8 word"
type_synonym bytes = "byte list"

datatype error = IndexError | StructError | TypeError

definition getitem :: "'a list \<Rightarrow> nat \<Rightarrow> error + 'a" where
  "getitem xs i = (if i < length xs then Inr (xs ! i) else Inl IndexError)"

definition slice :: "'a list \<Rightarrow> nat \<Rightarrow> nat \<Rightarrow> 'a list" where
  "slice xs a b = take (b - a) (drop a xs)"

text \<open>The big-endian 16-bit words of a buffer, as \<^verbatim>\<open>struct.unpack("! nH", b)\<close> reads them.\<close>

fun be_words :: "bytes \<Rightarrow> int list" where
  "be_words (a # b # rest) = (uint a * 256 + uint b) # be_words rest"
| "be_words _ = []"

definition struct_unpack_H :: "nat \<Rightarrow> bytes \<Rightarrow> error + int list" where
  "struct_unpack_H n b = (if length b = 2 * n then Inr (be_words b) else Inl StructError)"

section \<open>TCP options\<close>

text \<open>
  The five option classes differ in their name and accessors only; each stores
  \<^verbatim>\<open>self.option = data[:data[1]]\<close>, which raises \<^verbatim>\<open>IndexError\<close> when \<^verbatim>\<open>data\<close> has
  fewer than two bytes.
\<close>

datatype TcpOption =
    TcpOption (option: bytes)
  | TcpOptionMss (option: bytes)
  | TcpOptionWscale (option: bytes)
  | TcpOptionSackPerm (option: bytes)
  | TcpOptionTimestamp (option: bytes)

definition TcpOption_init :: "bytes \<Rightarrow> error + bytes" where
  "TcpOption_init data =
     (case getitem data 1 of
        Inl e \<Rightarrow> Inl e
      | Inr l \<Rightarrow> Inr (slice data 0 (unat l)))"

definition code :: "TcpOption \<Rightarrow> error + byte" where
  "code opt = getitem (option opt) 0"

definition length_opt :: "TcpOption \<Rightarrow> error + byte" where
  "length_opt opt = getitem (option opt) 1"

text \<open>The class chosen by the \<^verbatim>\<open>if\<close>/\<^verbatim>\<open>elif\<close> chain of \<^verbatim>\<open>TcpHeader.options\<close>.\<close>

definition option_class :: "byte \<Rightarrow> bytes \<Rightarrow> TcpOption" where
  "option_class kind =
     (if kind = 2 then TcpOptionMss
      else if kind = 3 then TcpOptionWscale
      else if kind = 4 then TcpOptionSackPerm
      else if kind = 8 then TcpOptionTimestamp
      else TcpOption)"

definition new_option :: "byte \<Rightarrow> bytes \<Rightarrow> error + TcpOption" where
  "new_option kind data =
     (case TcpOption_init data of
        Inl e \<Rightarrow> Inl e
      | Inr stored \<Rightarrow> Inr (option_class kind stored))"

section \<open>The TCP header\<close>

record TcpHeader =
  header :: bytes
  data :: bytes
  ip_pseudo_header :: "int list option"

definition TcpHeader_init :: "bytes \<Rightarrow> int list option \<Rightarrow> error + TcpHeader" where
  "TcpHeader_init buf ph =
     (case getitem buf 12 of
        Inl e \<Rightarrow> Inl e
      | Inr b \<Rightarrow>
          Inr \<lparr>header = slice buf 0 (unat (drop_bit 2 b)),
               data = drop (unat (drop_bit 2 b)) buf,
               ip_pseudo_header = ph\<rparr>)"

definition data_offset :: "TcpHeader \<Rightarrow> error + nat" where
  "data_offset h =
     (case getitem (header h) 12 of
        Inl e \<Rightarrow> Inl e
      | Inr b \<Rightarrow> Inr (unat (drop_bit 2 b)))"

definition flag_urg :: "TcpHeader \<Rightarrow> error + bool" where
  "flag_urg h = (case getitem (header h) 13 of Inl e \<Rightarrow> Inl e | Inr b \<Rightarrow> Inr (b AND 0x20 \<noteq> 0))"

definition flag_ack :: "TcpHeader \<Rightarrow> error + bool" where
  "flag_ack h = (case getitem (header h) 13 of Inl e \<Rightarrow> Inl e | Inr b \<Rightarrow> Inr (b AND 0x10 \<noteq> 0))"

definition flag_psh :: "TcpHeader \<Rightarrow> error + bool" where
  "flag_psh h = (case getitem (header h) 13 of Inl e \<Rightarrow> Inl e | Inr b \<Rightarrow> Inr (b AND 0x08 \<noteq> 0))"

definition flag_rst :: "TcpHeader \<Rightarrow> error + bool" where
  "flag_rst h = (case getitem (header h) 13 of Inl e \<Rightarrow> Inl e | Inr b \<Rightarrow> Inr (b AND 0x04 \<noteq> 0))"

definition flag_syn :: "TcpHeader \<Rightarrow> error + bool" where
  "flag_syn h = (case getitem (header h) 13 of Inl e \<Rightarrow> Inl e | Inr b \<Rightarrow> Inr (b AND 0x02 \<noteq> 0))"

definition flag_fin :: "TcpHeader \<Rightarrow> error + bool" where
  "flag_fin h = (case getitem (header h) 13 of Inl e \<Rightarrow> Inl e | Inr b \<Rightarrow> Inr (b AND 0x01 \<noteq> 0))"

text \<open>\<^verbatim>\<open>struct.unpack("!H", self.header[16:18])[0]\<close>\<close>

definition checksum :: "TcpHeader \<Rightarrow> error + int" where
  "checksum h =
     (case struct_unpack_H 1 (slice (header h) 16 18) of
        Inl e \<Rightarrow> Inl e
      | Inr ws \<Rightarrow> Inr (ws ! 0))"

section \<open>The option scan\<close>

text \<open>
  The \<^verbatim>\<open>while\<close> loop of \<^verbatim>\<open>TcpHeader.options\<close>, with the cursor \<^verbatim>\<open>i\<close> and the list
  \<^verbatim>\<open>options\<close> as arguments. The length byte \<^verbatim>\<open>raw_options[i + 1]\<close> is read first
  (\<^verbatim>\<open>IndexError\<close> when the kind byte is the last byte of the region), then the slice is
  taken and handed to the option's constructor, then the cursor advances by the length
  byte.
\<close>

function options_loop :: "bytes \<Rightarrow> nat \<Rightarrow> TcpOption list \<Rightarrow> error + TcpOption list" where
  "options_loop raw i opts =
     (if i < length raw then
        if raw ! i = 0 then Inr opts
        else if raw ! i = 1 then options_loop raw (i + 1) opts
        else
          (case getitem raw (i + 1) of
             Inl e \<Rightarrow> Inl e
           | Inr l \<Rightarrow>
               (case new_option (raw ! i) (slice raw i (i + unat l)) of
                  Inl e \<Rightarrow> Inl e
                | Inr opt \<Rightarrow> options_loop raw (i + unat l) (opts @ [opt])))
      else Inr opts)"
  by pat_completeness auto
termination
proof (relation "measure (\<lambda>(raw, i, opts). length raw - i)")
  show "wf (measure (\<lambda>(raw, i, opts). length raw - i))"
    by simp
next
  fix raw :: bytes and i :: nat and opts :: "TcpOption list"
  assume "i < length raw"
  then show "((raw, i + 1, opts), (raw, i, opts)) \<in> measure (\<lambda>(raw, i, opts). length raw - i)"
    by simp
next
  fix raw :: bytes and i :: nat and opts :: "TcpOption list" and l :: byte and opt :: TcpOption
  assume in_region: "i < length raw"
    and built: "new_option (raw ! i) (slice raw i (i + unat l)) = Inr opt"
  from built have "2 \<le> unat l"
    by (auto simp: new_option_def TcpOption_init_def getitem_def slice_def
        split: sum.splits if_splits)
  with in_region show "((raw, i + unat l, opts @ [opt]), (raw, i, opts))
      \<in> measure (\<lambda>(raw, i, opts). length raw - i)"
    by simp
qed

declare options_loop.simps [simp del]

text \<open>
  The same loop counting its iterations: \<open>None\<close> when the loop test has been evaluated
  \<open>n\<close> times without the loop having ended.
\<close>

fun options_fuel :: "nat \<Rightarrow> bytes \<Rightarrow> nat \<Rightarrow> TcpOption list \<Rightarrow> (error + TcpOption list) option" where
  "options_fuel 0 raw i opts = None"
| "options_fuel (Suc n) raw i opts =
     (if i < length raw then
        if raw ! i = 0 then Some (Inr opts)
        else if raw ! i = 1 then options_fuel n raw (i + 1) opts
        else
          (case getitem raw (i + 1) of
             Inl e \<Rightarrow> Some (Inl e)
           | Inr l \<Rightarrow>
               (case new_option (raw ! i) (slice raw i (i + unat l)) of
                  Inl e \<Rightarrow> Some (Inl e)
                | Inr opt \<Rightarrow> options_fuel n raw (i + unat l) (opts @ [opt])))
      else Some (Inr opts))"

text \<open>\<^verbatim>\<open>raw_options = self.header[20:self.data_offset]\<close>, then the loop from \<^verbatim>\<open>i = 0\<close>.\<close>

definition options :: "TcpHeader \<Rightarrow> error + TcpOption list" where
  "options h =
     (case data_offset h of
        Inl e \<Rightarrow> Inl e
      | Inr d \<Rightarrow> options_loop (slice (header h) 20 d) 0 [])"

text \<open>
  A record stores as many bytes as its length byte (\<^verbatim>\<open>TcpOption.length\<close>) declares.
\<close>

definition stores_declared_length :: "TcpOption \<Rightarrow> bool" where
  "stores_declared_length opt =
     (case length_opt opt of Inl e \<Rightarrow> False | Inr l \<Rightarrow> length (option opt) = unat l)"

section \<open>The checksum\<close>

text \<open>
  \<^verbatim>\<open>checksum_data\<close> as line 280 builds it: the elements of the pseudo header as they
  are (\<^verbatim>\<open>list(self.ip_pseudo_header)\<close>, a sequence of integers), the 16-bit words of the
  header and the 16-bit words of the payload, padded with a zero byte when its length is
  odd.
\<close>

definition padded_data :: "TcpHeader \<Rightarrow> bytes" where
  "padded_data h = (if length (data h) mod 2 \<noteq> 0 then data h @ [0] else data h)"

definition checksum_data :: "TcpHeader \<Rightarrow> error + int list" where
  "checksum_data h =
     (case ip_pseudo_header h of
        None \<Rightarrow> Inl TypeError
      | Some ph \<Rightarrow>
          (case data_offset h of
             Inl e \<Rightarrow> Inl e
           | Inr d \<Rightarrow>
               (case struct_unpack_H (d div 2) (header h) of
                  Inl e \<Rightarrow> Inl e
                | Inr hw \<Rightarrow>
                    (case struct_unpack_H (length (padded_data h) div 2) (padded_data h) of
                       Inl e \<Rightarrow> Inl e
                     | Inr dw \<Rightarrow> Inr (ph @ hw @ dw)))))"

text \<open>\<^verbatim>\<open>~((checksum & 0xFFFF) + (checksum >> 16)) & 0xFFFF\<close>\<close>

definition fold_once :: "int \<Rightarrow> int" where
  "fold_once s = NOT ((s AND 0xFFFF) + drop_bit 16 s) AND 0xFFFF"

definition compute_checksum :: "TcpHeader \<Rightarrow> error + int" where
  "compute_checksum h =
     (case checksum_data h of
        Inl e \<Rightarrow> Inl e
      | Inr cd \<Rightarrow>
          (if 6 + 8 < length cd then Inr (fold_once (sum_list (cd[6 + 8 := 0])))
           else Inl IndexError))"

subsection \<open>The checksum as the specification describes it\<close>

text \<open>
  Section 4.3 of the specification, written from its words and not from the code, for
  comparison with \<^const>\<open>fold_once\<close>: the sum of the words, with any carry beyond 16 bits
  folded back into the low 16 bits until no carry remains, then the complement of the low
  16 bits. \<open>spec_compute_checksum\<close> is \<^const>\<open>compute_checksum\<close> with this folding in
  the place of the single fold.
\<close>

function spec_fold_carries :: "int \<Rightarrow> int" where
  "spec_fold_carries s =
     (if 0xFFFF < s then spec_fold_carries (s mod 0x10000 + s div 0x10000) else s)"
  by pat_completeness auto
termination
proof (relation "measure nat")
  show "wf (measure nat)" by simp
next
  fix s :: int
  assume big: "0xFFFF < s"
  then have carry: "1 \<le> s div 0x10000"
    by (simp add: pos_imp_zdiv_pos_iff)
  have "s = 0x10000 * (s div 0x10000) + s mod 0x10000"
    by simp
  with carry have "s mod 0x10000 + s div 0x10000 < s"
    by linarith
  moreover from big have "0 \<le> s"
    by simp
  ultimately show "(s mod 0x10000 + s div 0x10000, s) \<in> measure nat"
    by simp
qed

declare spec_fold_carries.simps [simp del]

definition spec_checksum :: "int list \<Rightarrow> int" where
  "spec_checksum ws = NOT (spec_fold_carries (sum_list ws)) AND 0xFFFF"

definition spec_compute_checksum :: "TcpHeader \<Rightarrow> error + int" where
  "spec_compute_checksum h =
     (case checksum_data h of
        Inl e \<Rightarrow> Inl e
      | Inr cd \<Rightarrow>
          (if 6 + 8 < length cd then Inr (spec_checksum (cd[6 + 8 := 0]))
           else Inl IndexError))"

section \<open>Bytes and bits\<close>

lemma flag_bit: "(b AND 2 ^ n \<noteq> 0) = bit b n" for b :: byte
  by (simp add: and_exp_eq_0_iff_not_bit)

lemma reserved_bits_clear: "b AND 0x0C = 0 \<Longrightarrow> \<not> bit b 2 \<and> \<not> bit b 3" for b :: byte
proof -
  assume a: "b AND 0x0C = 0"
  have "bit (b AND 0x0C) 2 = bit b 2" "bit (b AND 0x0C) 3 = bit b 3"
    by (simp_all add: bit_and_iff)
  with a show ?thesis by simp
qed

lemma unat_shift: "unat (drop_bit n b) = unat b div 2 ^ n" for b :: byte
proof -
  have "unat (drop_bit n b) = drop_bit n (unat b)"
    by (rule unat_drop_bit_eq)
  also have "\<dots> = unat b div 2 ^ n"
    by (rule drop_bit_eq_div)
  finally show ?thesis .
qed

lemma quarter: "even q \<Longrightarrow> even (q div 2) \<Longrightarrow> q = 4 * (q div 4)" for q :: nat
proof -
  assume "even q" and "even (q div 2)"
  then obtain a c where "q = 2 * a" and "q div 2 = 2 * c"
    by (auto elim!: evenE)
  then have "q = 4 * c" by simp
  then show ?thesis by simp
qed

text \<open>
  With bits 2 and 3 of byte 12 clear, the shift by two of the whole byte is four times
  the high nibble.
\<close>

lemma shift_nibble:
  fixes b :: byte
  assumes "b AND 0x0C = 0"
  shows "unat (drop_bit 2 b) = 4 * unat (drop_bit 4 b)"
proof -
  from assms have "\<not> bit (unat b) 2" "\<not> bit (unat b) 3"
    using reserved_bits_clear [of b] by (simp_all add: bit_unsigned_iff)
  then have "even (unat b div 4)" "even (unat b div 8)"
    by (simp_all add: bit_iff_odd)
  then have "unat b div 4 = 4 * (unat b div 16)"
    using quarter [of "unat b div 4"] by (simp add: div_mult2_eq [symmetric])
  then show ?thesis
    by (simp add: unat_shift)
qed

lemma nibble_bound: "unat (drop_bit 4 b) < 16" for b :: byte
  using unsigned_less [of b, where 'a = nat] by (simp add: unat_shift)

section \<open>Construction and field accessors\<close>

text \<open>
  C1. The claim: \<^verbatim>\<open>data_offset\<close> is the high nibble of byte 12 times 4, for every value
  of byte 12. The accessor returns \<^verbatim>\<open>self.header[12] >> 2\<close>, which also carries bits 3
  and 2 of the byte, the reserved bits next to the Data Offset field in the header
  diagram of the module. For a 24-byte buffer whose byte 12 is \<^verbatim>\<open>0x54\<close> (nibble 5,
  reserved bit 2 set) the accessor returns 21, where the nibble times 4 is 20.
\<close>

theorem data_offset_counts_reserved_bits:
  "(case TcpHeader_init (replicate 12 0 @ [0x54] @ replicate 11 0) None of
      Inl e \<Rightarrow> Inl e
    | Inr h \<Rightarrow> data_offset h) = Inr 21
   \<and> 4 * unat (drop_bit 4 (0x54 :: byte)) = 20"
  by (simp add: TcpHeader_init_def getitem_def slice_def data_offset_def nth_append)

text \<open>
  Where bits 3 and 2 of byte 12 are clear the accessor is the nibble times 4, a multiple
  of 4 that is at most 60.
\<close>

lemma data_offset_well_formed:
  assumes "12 < length (header h)" and "header h ! 12 AND 0x0C = 0"
  shows "data_offset h = Inr (4 * unat (drop_bit 4 (header h ! 12)))"
    and "4 * unat (drop_bit 4 (header h ! 12)) \<le> 60"
  using assms shift_nibble [of "header h ! 12"] nibble_bound [of "header h ! 12"]
  by (simp_all add: data_offset_def getitem_def)

text \<open>
  C2, as the claim states it: a buffer shorter than the header length it declares is
  refused. The constructor has no length check: a 13-byte buffer whose byte 12 declares
  a 20-byte header builds a view whose header is the 13 bytes.
\<close>

theorem init_accepts_short_buffer:
  "TcpHeader_init (replicate 12 0 @ [0x50]) None
     = Inr \<lparr>header = replicate 12 0 @ [0x50], data = [], ip_pseudo_header = None\<rparr>
   \<and> 4 * unat (drop_bit 4 (0x50 :: byte)) = 20"
  by (simp add: TcpHeader_init_def getitem_def slice_def nth_append)

text \<open>
  C2, amended: construction raises \<^verbatim>\<open>IndexError\<close> for a buffer of fewer than 13 bytes
  and succeeds for every other buffer. Where bits 3 and 2 of byte 12 are clear, the header
  of the view is the first (high nibble of byte 12) times 4 bytes of the buffer: exactly
  that many when the buffer has them, the whole shorter buffer otherwise.
\<close>

theorem init_header_length:
  "(length buf < 13 \<longrightarrow> TcpHeader_init buf ph = Inl IndexError)
   \<and> (13 \<le> length buf \<longrightarrow>
        (\<exists>h. TcpHeader_init buf ph = Inr h
           \<and> (buf ! 12 AND 0x0C = 0 \<longrightarrow>
                header h = take (4 * unat (drop_bit 4 (buf ! 12))) buf
                \<and> length (header h) = min (length buf) (4 * unat (drop_bit 4 (buf ! 12))))))"
proof (intro conjI impI)
  assume "length buf < 13"
  then show "TcpHeader_init buf ph = Inl IndexError"
    by (simp add: TcpHeader_init_def getitem_def)
next
  assume long: "13 \<le> length buf"
  let ?h = "\<lparr>header = slice buf 0 (unat (drop_bit 2 (buf ! 12))),
    data = drop (unat (drop_bit 2 (buf ! 12))) buf, ip_pseudo_header = ph\<rparr>"
  from long have built: "TcpHeader_init buf ph = Inr ?h"
    by (simp add: TcpHeader_init_def getitem_def)
  have "header ?h = take (4 * unat (drop_bit 4 (buf ! 12))) buf
      \<and> length (header ?h) = min (length buf) (4 * unat (drop_bit 4 (buf ! 12)))"
    if "buf ! 12 AND 0x0C = 0"
    using shift_nibble [OF that] by (simp add: slice_def)
  with built show "\<exists>h. TcpHeader_init buf ph = Inr h
      \<and> (buf ! 12 AND 0x0C = 0 \<longrightarrow>
           header h = take (4 * unat (drop_bit 4 (buf ! 12))) buf
           \<and> length (header h) = min (length buf) (4 * unat (drop_bit 4 (buf ! 12))))"
    by blast
qed

theorem init_header_length_witness:
  "TcpHeader_init [] None = Inl IndexError
   \<and> (\<exists>h. TcpHeader_init (replicate 12 0 @ [0x60] @ replicate 27 0) None = Inr h
         \<and> length (header h) = 24)
   \<and> (\<exists>h. TcpHeader_init (replicate 12 0 @ [0x60] @ replicate 3 0) None = Inr h
         \<and> length (header h) = 16)
   \<and> (\<exists>h. TcpHeader_init (replicate 12 0 @ [0x20] @ replicate 27 0) None = Inr h
         \<and> length (header h) = 8)"
  using init_header_length [of "[]" None]
    init_header_length [of "replicate 12 0 @ [0x60] @ replicate 27 0" None]
    init_header_length [of "replicate 12 0 @ [0x60] @ replicate 3 0" None]
    init_header_length [of "replicate 12 0 @ [0x20] @ replicate 27 0" None]
  by (auto simp: nth_append)

text \<open>
  C9. In every view whose header has a byte 13, each of the six flag accessors returns
  the value of its own bit of that byte: URG bit 5, ACK bit 4, PSH bit 3, RST bit 2,
  SYN bit 1, FIN bit 0. No other bit of the byte, the two high bits included, takes part.
\<close>

theorem flags_report_their_bits:
  "13 < length (header h) \<Longrightarrow>
   flag_urg h = Inr (bit (header h ! 13) 5) \<and>
   flag_ack h = Inr (bit (header h ! 13) 4) \<and>
   flag_psh h = Inr (bit (header h ! 13) 3) \<and>
   flag_rst h = Inr (bit (header h ! 13) 2) \<and>
   flag_syn h = Inr (bit (header h ! 13) 1) \<and>
   flag_fin h = Inr (bit (header h ! 13) 0)"
  using flag_bit [of "header h ! 13" 5] flag_bit [of "header h ! 13" 4]
    flag_bit [of "header h ! 13" 3] flag_bit [of "header h ! 13" 2]
    flag_bit [of "header h ! 13" 1] flag_bit [of "header h ! 13" 0]
  by (simp add: flag_urg_def flag_ack_def flag_psh_def flag_rst_def flag_syn_def
      flag_fin_def getitem_def)

theorem flags_report_their_bits_witness:
  "13 < length (header \<lparr>header = replicate 13 0 @ [0xD2], data = [], ip_pseudo_header = None\<rparr>)
   \<and> flag_urg \<lparr>header = replicate 13 0 @ [0xD2], data = [], ip_pseudo_header = None\<rparr> = Inr False
   \<and> flag_ack \<lparr>header = replicate 13 0 @ [0xD2], data = [], ip_pseudo_header = None\<rparr> = Inr True
   \<and> flag_psh \<lparr>header = replicate 13 0 @ [0xD2], data = [], ip_pseudo_header = None\<rparr> = Inr False
   \<and> flag_rst \<lparr>header = replicate 13 0 @ [0xD2], data = [], ip_pseudo_header = None\<rparr> = Inr False
   \<and> flag_syn \<lparr>header = replicate 13 0 @ [0xD2], data = [], ip_pseudo_header = None\<rparr> = Inr True
   \<and> flag_fin \<lparr>header = replicate 13 0 @ [0xD2], data = [], ip_pseudo_header = None\<rparr> = Inr False"
  using flags_report_their_bits
    [of "\<lparr>header = replicate 13 0 @ [0xD2], data = [], ip_pseudo_header = None\<rparr>"]
  by (simp add: nth_append)

text \<open>
  C10. For every buffer of at least 13 bytes construction succeeds and splits the buffer
  at position byte 12 shifted right by two: the header is the prefix up to that position
  (the whole buffer when it is shorter), the payload is the rest, and header followed by
  payload is the buffer.
\<close>

theorem init_partitions_buffer:
  "12 < length buf \<Longrightarrow>
   (\<exists>h. TcpHeader_init buf ph = Inr h
      \<and> header h = take (unat (drop_bit 2 (buf ! 12))) buf
      \<and> data h = drop (unat (drop_bit 2 (buf ! 12))) buf
      \<and> length (header h) = min (length buf) (unat (drop_bit 2 (buf ! 12)))
      \<and> header h @ data h = buf)"
  by (simp add: TcpHeader_init_def getitem_def slice_def)

theorem init_partitions_buffer_witness:
  "12 < length (replicate 12 0 @ [0x50 :: byte] @ [1, 2, 3])
   \<and> TcpHeader_init (replicate 12 0 @ [0x50] @ replicate 7 0 @ [1, 2, 3]) None
       = Inr \<lparr>header = replicate 12 0 @ [0x50] @ replicate 7 0, data = [1, 2, 3],
              ip_pseudo_header = None\<rparr>
   \<and> TcpHeader_init (replicate 12 0 @ [0x50] @ [1, 2, 3]) None
       = Inr \<lparr>header = replicate 12 0 @ [0x50] @ [1, 2, 3], data = [],
              ip_pseudo_header = None\<rparr>"
  using init_partitions_buffer [of "replicate 12 0 @ [0x50] @ replicate 7 0 @ [1, 2, 3]" None]
    init_partitions_buffer [of "replicate 12 0 @ [0x50] @ [1, 2, 3]" None]
  by (auto simp: nth_append TcpHeader_init_def getitem_def slice_def)

section \<open>The option scan: what it returns\<close>

lemma option_option_class: "option (option_class kind stored) = stored"
  by (simp add: option_class_def)

lemma new_option_eq:
  "new_option kind d =
     (if 1 < length d then Inr (option_class kind (take (unat (d ! 1)) d)) else Inl IndexError)"
  by (simp add: new_option_def TcpOption_init_def getitem_def slice_def)

lemma new_option_slice:
  assumes "Suc i < length raw"
  shows "new_option kind (slice raw i (i + unat (raw ! Suc i))) =
     (if 2 \<le> unat (raw ! Suc i)
      then Inr (option_class kind (take (unat (raw ! Suc i)) (drop i raw)))
      else Inl IndexError)"
  using assms by (auto simp: new_option_eq slice_def)

lemma new_option_advances:
  "new_option kind (slice raw i (i + unat l)) = Inr opt \<Longrightarrow> 2 \<le> unat l"
  by (auto simp: new_option_eq slice_def split: if_splits)

lemma options_fuel_enough:
  "length raw - i < n \<Longrightarrow> options_fuel n raw i opts = Some (options_loop raw i opts)"
proof (induction n arbitrary: i opts)
  case 0
  then show ?case by simp
next
  case (Suc n)
  show ?case
  proof (cases "i < length raw")
    case False
    then show ?thesis by (simp add: options_loop.simps [of raw i opts])
  next
    case True
    with Suc.prems have nop: "length raw - (i + 1) < n" by simp
    have opt: "length raw - (i + unat l) < n"
      if "new_option (raw ! i) (slice raw i (i + unat l)) = Inr opt" for l opt
      using new_option_advances [OF that] True Suc.prems by simp
    show ?thesis
      using True Suc.IH [OF nop] Suc.IH [OF opt]
      by (auto simp: options_loop.simps [of raw i opts] split: sum.splits)
  qed
qed

lemma short_length_raises:
  "i + 1 < length raw \<Longrightarrow> raw ! i \<noteq> 0 \<Longrightarrow> raw ! i \<noteq> 1 \<Longrightarrow> unat (raw ! (i + 1)) < 2
   \<Longrightarrow> options_loop raw i opts = Inl IndexError"
  by (simp add: options_loop.simps [of raw i opts] getitem_def new_option_slice)

lemma options_loop_end: "length raw \<le> i \<Longrightarrow> options_loop raw i opts = Inr opts"
  by (simp add: options_loop.simps [of raw i opts])

lemma sliced_records:
  "options_loop raw i opts = Inr res \<Longrightarrow>
   (\<forall>opt \<in> set opts. \<exists>j. Suc j < length raw \<and> 2 \<le> unat (raw ! Suc j)
        \<and> option opt = slice raw j (j + unat (raw ! Suc j))) \<Longrightarrow>
   (\<forall>opt \<in> set res. \<exists>j. Suc j < length raw \<and> 2 \<le> unat (raw ! Suc j)
        \<and> option opt = slice raw j (j + unat (raw ! Suc j)))"
proof (induction raw i opts rule: options_loop.induct)
  case (1 raw i opts)
  show ?case
  proof (cases "i < length raw \<and> raw ! i \<noteq> 0")
    case False
    with "1.prems" show ?thesis
      by (auto simp: options_loop.simps [of raw i opts] split: if_splits)
  next
    case True
    show ?thesis
    proof (cases "raw ! i = 1")
      case True
      with \<open>i < length raw \<and> raw ! i \<noteq> 0\<close> "1.prems" "1.IH"(1) show ?thesis
        by (simp add: options_loop.simps [of raw i opts])
    next
      case False
      with True "1.prems"(1) obtain opt where
        len: "Suc i < length raw"
        and built: "new_option (raw ! i) (slice raw i (i + unat (raw ! Suc i))) = Inr opt"
        and rest: "options_loop raw (i + unat (raw ! Suc i)) (opts @ [opt]) = Inr res"
        by (auto simp: options_loop.simps [of raw i opts] getitem_def split: sum.splits if_splits)
      from built have big: "2 \<le> unat (raw ! Suc i)"
        by (rule new_option_advances)
      with built have "opt = option_class (raw ! i) (take (unat (raw ! Suc i)) (drop i raw))"
        by (simp add: new_option_slice [OF len])
      then have stored: "option opt = slice raw i (i + unat (raw ! Suc i))"
        by (simp add: option_option_class slice_def)
      have "\<forall>opt \<in> set (opts @ [opt]). \<exists>j. Suc j < length raw \<and> 2 \<le> unat (raw ! Suc j)
          \<and> option opt = slice raw j (j + unat (raw ! Suc j))"
        using "1.prems"(2) len big stored by auto
      with "1.IH"(2) [of "raw ! Suc i" opt] True False len built rest show ?thesis
        by (simp add: getitem_def)
    qed
  qed
qed

lemma slice_declares:
  assumes "Suc j < length raw" and "2 \<le> unat (raw ! Suc j)"
    and "option opt = slice raw j (j + unat (raw ! Suc j))"
  shows "length_opt opt = Inr (raw ! Suc j)"
    and "length (option opt) = min (unat (raw ! Suc j)) (length raw - j)"
  using assms by (simp_all add: length_opt_def getitem_def slice_def)

lemma fitting_option_exact:
  assumes "Suc i < length raw" and "i + unat (raw ! Suc i) \<le> length raw"
    and "new_option (raw ! i) (slice raw i (i + unat (raw ! Suc i))) = Inr opt"
  shows "stores_declared_length opt"
proof -
  from assms(3) have big: "2 \<le> unat (raw ! Suc i)"
    by (rule new_option_advances)
  with assms(3) have "opt = option_class (raw ! i) (take (unat (raw ! Suc i)) (drop i raw))"
    by (simp add: new_option_slice [OF assms(1)])
  then have "option opt = slice raw i (i + unat (raw ! Suc i))"
    by (simp add: option_option_class slice_def)
  from slice_declares [OF assms(1) big this] assms(2) show ?thesis
    by (simp add: stores_declared_length_def)
qed

lemma exact_but_last:
  "options_loop raw i opts = Inr res \<Longrightarrow>
   (\<forall>opt \<in> set (butlast opts). stores_declared_length opt) \<Longrightarrow>
   (i \<le> length raw \<longrightarrow> (\<forall>opt \<in> set opts. stores_declared_length opt)) \<Longrightarrow>
   (\<forall>opt \<in> set (butlast res). stores_declared_length opt)"
proof (induction raw i opts rule: options_loop.induct)
  case (1 raw i opts)
  show ?case
  proof (cases "i < length raw \<and> raw ! i \<noteq> 0")
    case False
    with "1.prems"(1) have "res = opts"
      by (auto simp: options_loop.simps [of raw i opts] split: if_splits)
    with "1.prems"(2) show ?thesis by simp
  next
    case True
    then have all: "\<forall>opt \<in> set opts. stores_declared_length opt"
      using "1.prems"(3) by simp
    then have most: "\<forall>opt \<in> set (butlast opts). stores_declared_length opt"
      by (meson in_set_butlastD)
    show ?thesis
    proof (cases "raw ! i = 1")
      case True
      with \<open>i < length raw \<and> raw ! i \<noteq> 0\<close> "1.prems"(1)
      have rest: "options_loop raw (i + 1) opts = Inr res"
        by (simp add: options_loop.simps [of raw i opts])
      from True \<open>i < length raw \<and> raw ! i \<noteq> 0\<close> show ?thesis
        by (intro "1.IH"(1) [OF _ _ _ rest most]) (simp_all add: all)
    next
      case False
      with True "1.prems"(1) obtain opt where
        len: "Suc i < length raw"
        and built: "new_option (raw ! i) (slice raw i (i + unat (raw ! Suc i))) = Inr opt"
        and rest: "options_loop raw (i + unat (raw ! Suc i)) (opts @ [opt]) = Inr res"
        by (auto simp: options_loop.simps [of raw i opts] getitem_def split: sum.splits if_splits)
      have a: "\<forall>opt \<in> set (butlast (opts @ [opt])). stores_declared_length opt"
        using all by simp
      have b: "i + unat (raw ! Suc i) \<le> length raw \<longrightarrow>
          (\<forall>opt \<in> set (opts @ [opt]). stores_declared_length opt)"
      proof
        assume fits: "i + unat (raw ! Suc i) \<le> length raw"
        from len fits built have "stores_declared_length opt"
          by (rule fitting_option_exact)
        with all show "\<forall>opt \<in> set (opts @ [opt]). stores_declared_length opt"
          by simp
      qed
      have g: "getitem raw (i + 1) = Inr (raw ! Suc i)"
        using len by (simp add: getitem_def)
      from True False show ?thesis
        by (intro "1.IH"(2) [OF _ _ _ g built rest a b]) simp_all
    qed
  qed
qed

text \<open>
  C4, as the claim states it: a length byte of 0 or 1 after a kind other than 0 and 1
  makes the scan treat the region as malformed and stop; in the specification that is a
  condition reported to the caller together with the options decoded so far. In a
  28-byte header whose option region is \<^verbatim>\<open>02 04 05 B4 03 00 09 09\<close> (an MSS option, then
  a window-scale option declaring length 0) \<^verbatim>\<open>options\<close> raises \<^verbatim>\<open>IndexError\<close>: the MSS
  record, which the region up to that point decodes to, is not returned.
\<close>

theorem options_short_length_raises:
  "TcpHeader_init
     [0, 0, 0, 0, 0, 0, 0, 0, 0, 0, 0, 0, 0x70, 0, 0, 0, 0, 0, 0, 0,
      2, 4, 5, 0xB4, 3, 0, 9, 9] None
     = Inr \<lparr>header = [0, 0, 0, 0, 0, 0, 0, 0, 0, 0, 0, 0, 0x70, 0, 0, 0, 0, 0, 0, 0,
                       2, 4, 5, 0xB4, 3, 0, 9, 9],
            data = [], ip_pseudo_header = None\<rparr>
   \<and> options \<lparr>header = [0, 0, 0, 0, 0, 0, 0, 0, 0, 0, 0, 0, 0x70, 0, 0, 0, 0, 0, 0, 0,
                        2, 4, 5, 0xB4, 3, 0, 9, 9],
             data = [], ip_pseudo_header = None\<rparr>
     = Inl IndexError
   \<and> options_loop [2, 4, 5, 0xB4] 0 [] = Inr [TcpOptionMss [2, 4, 5, 0xB4]]"
  by (simp add: TcpHeader_init_def data_offset_def options_def getitem_def slice_def
      options_loop.simps new_option_eq option_class_def)

text \<open>
  C4, amended: the option scan ends on every region. Counting iterations, the loop
  started at cursor \<open>i\<close> has ended before its test has been evaluated more than
  \<open>length raw - i + 1\<close> times, so from the start \<open>length raw + 1\<close> evaluations are
  enough. An iteration never leaves the cursor in place: a kind other than 0 and 1 whose
  length byte is 0 or 1 gives its constructor a slice of fewer than two bytes, and
  \<^verbatim>\<open>data[1]\<close> there raises \<^verbatim>\<open>IndexError\<close>. The exception leaves \<^verbatim>\<open>options\<close>: the scan
  ends with it, whatever it had decoded, and returns no list.
\<close>

theorem options_scan_terminates:
  "(length raw - i < n \<longrightarrow> options_fuel n raw i opts = Some (options_loop raw i opts))
   \<and> (Suc i < length raw \<and> raw ! i \<noteq> 0 \<and> raw ! i \<noteq> 1 \<and> unat (raw ! Suc i) < 2
        \<longrightarrow> options_loop raw i opts = Inl IndexError)"
  using options_fuel_enough [of raw i n opts] short_length_raises [of i raw opts]
  by simp

theorem options_scan_terminates_witness:
  "length [1, 1, 2, 4, 5, 0xB4, 3, 0, 9 :: byte] - 0 < 10
   \<and> options_fuel 10 [1, 1, 2, 4, 5, 0xB4, 3, 0, 9] 0 [] = Some (Inl IndexError)
   \<and> Suc 6 < length [1, 1, 2, 4, 5, 0xB4, 3, 0, 9 :: byte]
   \<and> unat ([1, 1, 2, 4, 5, 0xB4, 3, 0, 9 :: byte] ! Suc 6) < 2
   \<and> options_loop [1, 1, 2, 4, 5, 0xB4, 3, 0, 9] 6 [TcpOptionMss [2, 4, 5, 0xB4]]
       = Inl IndexError"
  using options_scan_terminates [of "[1, 1, 2, 4, 5, 0xB4, 3, 0, 9]" 0 10 "[]"]
    options_scan_terminates
      [of "[1, 1, 2, 4, 5, 0xB4, 3, 0, 9]" 6 _ "[TcpOptionMss [2, 4, 5, 0xB4]]"]
  by (simp add: options_loop.simps getitem_def new_option_eq slice_def option_class_def)

text \<open>
  C3, as the claim states it: when an option's declared length overruns the region,
  the result is the options decoded before it, and a malformed-options condition is
  signalled. In a 24-byte header whose option region is \<^verbatim>\<open>01 02 04 05\<close> (a no-op, then
  an MSS option declaring 4 bytes where 3 are left) the scan returns normally, and the
  list holds a record for the overrunning option, with the 3 bytes that are there.
\<close>

theorem options_keeps_truncated_option:
  "(case TcpHeader_init (replicate 12 0 @ [0x60] @ replicate 7 0 @ [1, 2, 4, 5]) None of
      Inl e \<Rightarrow> Inl e
    | Inr h \<Rightarrow> options h) = Inr [TcpOptionMss [2, 4, 5]]"
  by (simp add: TcpHeader_init_def data_offset_def options_def getitem_def slice_def nth_append
      options_loop.simps new_option_eq option_class_def)

text \<open>
  C3, amended: when the scan stands at a kind other than 0 and 1 whose length byte
  declares more bytes than the region has left, it returns normally, with no condition
  signalled: the options decoded so far, followed by one record of the class of that
  kind holding the bytes from the kind byte to the end of the region. Nothing outside the
  region is read: the record is a suffix of the region.
\<close>

theorem options_overrun_truncates:
  assumes "Suc i < length raw" and "raw ! i \<noteq> 0" and "raw ! i \<noteq> 1"
    and "length raw < i + unat (raw ! Suc i)"
  shows "options_loop raw i opts = Inr (opts @ [option_class (raw ! i) (drop i raw)])"
proof -
  from assms have "2 \<le> unat (raw ! Suc i)" by simp
  with assms show ?thesis
    by (simp add: options_loop.simps [of raw i opts] getitem_def new_option_slice
        options_loop_end)
qed


theorem options_overrun_truncates_witness:
  "Suc 4 < length [2, 4, 5, 0xB4, 8, 10, 1, 2 :: byte]
   \<and> length [2, 4, 5, 0xB4, 8, 10, 1, 2 :: byte]
       < 4 + unat ([2, 4, 5, 0xB4, 8, 10, 1, 2 :: byte] ! Suc 4)
   \<and> options_loop [2, 4, 5, 0xB4, 8, 10, 1, 2] 0 []
       = Inr [TcpOptionMss [2, 4, 5, 0xB4], TcpOptionTimestamp [8, 10, 1, 2]]"
  using options_overrun_truncates
    [of 4 "[2, 4, 5, 0xB4, 8, 10, 1, 2]" "[TcpOptionMss [2, 4, 5, 0xB4]]"]
  by (simp add: options_loop.simps [of _ 0] getitem_def new_option_eq slice_def option_class_def)

text \<open>
  C8, as the claim states it: each emitted record stores as many bytes as its length
  byte declares. With the option region \<^verbatim>\<open>08 0A 00 01\<close> the scan emits a timestamp
  record of 4 bytes whose length byte is 10.
\<close>

theorem options_record_shorter_than_declared:
  "(case TcpHeader_init (replicate 12 0 @ [0x60] @ replicate 7 0 @ [8, 10, 0, 1]) None of
      Inl e \<Rightarrow> Inl e
    | Inr h \<Rightarrow> options h) = Inr [TcpOptionTimestamp [8, 10, 0, 1]]
   \<and> length_opt (TcpOptionTimestamp [8, 10, 0, 1]) = Inr 10
   \<and> length (option (TcpOptionTimestamp [8, 10, 0, 1])) = 4"
  by (simp add: TcpHeader_init_def data_offset_def options_def getitem_def slice_def nth_append
      options_loop.simps new_option_eq option_class_def length_opt_def)

text \<open>
  C8, amended: each emitted record stores the bytes of the region from its kind byte on,
  as many as its length byte declares or as many as the region has left, whichever is
  less, and at least 2; its length byte is the byte after its kind byte. Every record
  but the last stores exactly as many bytes as its length byte declares. All bytes of
  a record are bytes of the region.
\<close>

theorem emitted_records_are_slices:
  assumes "options_loop raw 0 [] = Inr res"
  shows "(\<forall>opt \<in> set res. \<exists>j. Suc j < length raw
            \<and> length_opt opt = Inr (raw ! Suc j)
            \<and> option opt = slice raw j (j + unat (raw ! Suc j))
            \<and> 2 \<le> length (option opt)
            \<and> length (option opt) = min (unat (raw ! Suc j)) (length raw - j))
         \<and> (\<forall>opt \<in> set (butlast res). stores_declared_length opt)"
proof
  have sliced: "\<forall>opt \<in> set res. \<exists>j. Suc j < length raw \<and> 2 \<le> unat (raw ! Suc j)
        \<and> option opt = slice raw j (j + unat (raw ! Suc j))"
    using sliced_records [OF assms] by simp
  show "\<forall>opt \<in> set res. \<exists>j. Suc j < length raw
            \<and> length_opt opt = Inr (raw ! Suc j)
            \<and> option opt = slice raw j (j + unat (raw ! Suc j))
            \<and> 2 \<le> length (option opt)
            \<and> length (option opt) = min (unat (raw ! Suc j)) (length raw - j)"
  proof
    fix opt
    assume "opt \<in> set res"
    with sliced obtain j where j: "Suc j < length raw" "2 \<le> unat (raw ! Suc j)"
      "option opt = slice raw j (j + unat (raw ! Suc j))"
      by blast
    from slice_declares [OF j] j show "\<exists>j. Suc j < length raw
            \<and> length_opt opt = Inr (raw ! Suc j)
            \<and> option opt = slice raw j (j + unat (raw ! Suc j))
            \<and> 2 \<le> length (option opt)
            \<and> length (option opt) = min (unat (raw ! Suc j)) (length raw - j)"
      by (intro exI [of _ j]) simp
  qed
next
  show "\<forall>opt \<in> set (butlast res). stores_declared_length opt"
    using exact_but_last [OF assms] by simp
qed


theorem emitted_records_are_slices_witness:
  "options_loop [2, 4, 5, 0xB4, 1, 8, 10, 1] 0 []
     = Inr [TcpOptionMss [2, 4, 5, 0xB4], TcpOptionTimestamp [8, 10, 1]]
   \<and> stores_declared_length (TcpOptionMss [2, 4, 5, 0xB4])
   \<and> length_opt (TcpOptionTimestamp [8, 10, 1]) = Inr 10"
  using emitted_records_are_slices [of "[2, 4, 5, 0xB4, 1, 8, 10, 1]"
      "[TcpOptionMss [2, 4, 5, 0xB4], TcpOptionTimestamp [8, 10, 1]]"]
  by (simp add: options_loop.simps getitem_def new_option_eq slice_def option_class_def
      length_opt_def)

section \<open>The checksum: what it sums\<close>

lemma sum_list_update_int:
  "k < length xs \<Longrightarrow> sum_list (xs[k := x]) = sum_list xs - xs ! k + x" for xs :: "int list"
  by (induction xs arbitrary: k) (auto split: nat.splits)

lemma length_be_words: "length (be_words xs) = length xs div 2"
  by (induction xs rule: be_words.induct) simp_all

lemma be_words_append:
  "even (length xs) \<Longrightarrow> be_words (xs @ ys) = be_words xs @ be_words ys"
  by (induction xs rule: be_words.induct) simp_all

lemma be_words_update:
  "Suc (2 * k) < length xs \<Longrightarrow>
   be_words (xs[2 * k := a, Suc (2 * k) := b]) = (be_words xs)[k := uint a * 256 + uint b]"
proof (induction xs arbitrary: k rule: be_words.induct)
  case (1 x y rest)
  then show ?case by (cases k) simp_all
qed simp_all

lemma padded_data_eq:
  "padded_data h = (if odd (length (data h)) then data h @ [0] else data h)"
proof -
  have "(length (data h) mod 2 \<noteq> 0) = odd (length (data h))"
    by presburger
  then show ?thesis
    by (simp add: padded_data_def)
qed

lemma padded_data_even: "even (length (padded_data h))"
  by (simp add: padded_data_eq)

lemma unpack_padded_data:
  "struct_unpack_H (length (padded_data h) div 2) (padded_data h) = Inr (be_words (padded_data h))"
  using padded_data_even [of h] by (simp add: struct_unpack_H_def)

lemma checksum_data_init:
  assumes long: "12 < length buf" and n: "n = unat (drop_bit 2 (buf ! 12))"
  shows "checksum_data \<lparr>header = take n buf, data = drop n buf, ip_pseudo_header = Some ph\<rparr> =
    (if n \<le> 12 then Inl IndexError
     else if min (length buf) n \<noteq> 2 * (n div 2) then Inl StructError
     else Inr (ph @ be_words (if odd (length buf) then buf @ [0] else buf)))"
proof (cases "n \<le> 12")
  case True
  then show ?thesis
    by (simp add: checksum_data_def data_offset_def getitem_def)
next
  case False
  with long n have off: "data_offset \<lparr>header = take n buf, data = drop n buf,
      ip_pseudo_header = Some ph\<rparr> = Inr n"
    by (simp add: data_offset_def getitem_def)
  show ?thesis
  proof (cases "min (length buf) n = 2 * (n div 2)")
    case uneven: False
    with False off show ?thesis
      by (simp add: checksum_data_def struct_unpack_H_def)
  next
    case even: True
    let ?h = "\<lparr>header = take n buf, data = drop n buf, ip_pseudo_header = Some ph\<rparr>"
    from even have ev: "even (length (take n buf))"
      by simp
    have par: "odd (length buf - n) = odd (length buf)"
    proof (cases "n \<le> length buf")
      case True
      with even have "n = 2 * (n div 2)" by simp
      with True show ?thesis by presburger
    next
      case False
      with even have "length buf = 2 * (n div 2)" by simp
      with False show ?thesis by presburger
    qed
    have "take n buf @ padded_data ?h = (if odd (length buf) then buf @ [0] else buf)"
      using par by (simp add: padded_data_eq flip: append_assoc)
    then have "be_words (take n buf) @ be_words (padded_data ?h)
        = be_words (if odd (length buf) then buf @ [0] else buf)"
      using be_words_append [OF ev, of "padded_data ?h"] by simp
    moreover from even have "struct_unpack_H (n div 2) (take n buf) = Inr (be_words (take n buf))"
      by (simp add: struct_unpack_H_def)
    ultimately show ?thesis
      using False off even by (simp add: checksum_data_def unpack_padded_data)
  qed
qed

lemma be_words_field_update:
  assumes "17 < length buf"
  shows "be_words (if odd (length buf) then buf[16 := a, 17 := b] @ [0]
                   else buf[16 := a, 17 := b])
       = (be_words (if odd (length buf) then buf @ [0] else buf))[8 := uint a * 256 + uint b]"
proof -
  let ?pad = "if odd (length buf) then buf @ [0] else buf"
  from assms have "(if odd (length buf) then buf[16 := a, 17 := b] @ [0]
      else buf[16 := a, 17 := b]) = ?pad[2 * 8 := a, Suc (2 * 8) := b]"
    by (simp add: list_update_append1)
  moreover from assms have "Suc (2 * 8) < length ?pad"
    by simp
  ultimately show ?thesis
    by (simp only: be_words_update)
qed

lemma fold_once_range: "0 \<le> fold_once s \<and> fold_once s < 0x10000"
proof -
  have "fold_once s \<le> 0xFFFF"
    unfolding fold_once_def by (rule AND_upper2) simp
  moreover have "0 \<le> fold_once s"
    unfolding fold_once_def by simp
  ultimately show ?thesis by simp
qed

lemma compute_checksum_init:
  assumes long: "12 < length buf" and n: "n = unat (drop_bit 2 (buf ! 12))"
    and six: "length ph = 6"
  shows "compute_checksum \<lparr>header = take n buf, data = drop n buf, ip_pseudo_header = Some ph\<rparr> =
    (if n \<le> 12 then Inl IndexError
     else if min (length buf) n \<noteq> 2 * (n div 2) then Inl StructError
     else if length buf < 17 then Inl IndexError
     else Inr (fold_once (sum_list
        (ph @ (be_words (if odd (length buf) then buf @ [0] else buf))[8 := 0]))))"
proof -
  have "(6 + 8 < length (ph @ be_words (if odd (length buf) then buf @ [0] else buf)))
      = (\<not> length buf < 17)"
    using six by (simp add: length_be_words) presburger
  moreover have "(ph @ ws)[6 + 8 := 0] = ph @ ws[8 := 0]" for ws :: "int list"
    using six by (simp add: list_update_append)
  ultimately show ?thesis
    by (simp add: compute_checksum_def checksum_data_init [OF long n])
qed

lemma init_eq:
  "TcpHeader_init buf ph = Inr h \<Longrightarrow>
   12 < length buf \<and> h = \<lparr>header = take (unat (drop_bit 2 (buf ! 12))) buf,
     data = drop (unat (drop_bit 2 (buf ! 12))) buf, ip_pseudo_header = ph\<rparr>"
  by (auto simp: TcpHeader_init_def getitem_def slice_def split: if_splits)

lemma compute_checksum_range: "compute_checksum h = Inr c \<Longrightarrow> 0 \<le> c \<and> c < 0x10000"
  using fold_once_range by (auto simp: compute_checksum_def split: sum.splits if_splits)

lemma slice_field:
  assumes "18 \<le> length xs"
  shows "slice xs 16 18 = [xs ! 16, xs ! 17]"
proof -
  from assms have "drop 16 xs = xs ! 16 # drop (Suc 16) xs"
    and "drop 17 xs = xs ! 17 # drop (Suc 17) xs"
    by (simp_all only: Cons_nth_drop_Suc [symmetric])
  then show ?thesis
    by (simp add: slice_def)
qed

lemma two_bytes:
  assumes "0 \<le> c" and "c < 0x10000"
  shows "uint (word_of_int (c div 256) :: byte) * 256 + uint (word_of_int (c mod 256) :: byte) = c"
proof -
  from assms have "0 \<le> c div 256" and "c div 256 < 256"
    by simp_all
  then have "uint (word_of_int (c div 256) :: byte) = c div 256"
    by (simp add: uint_word_of_int take_bit_eq_mod)
  moreover have "uint (word_of_int (c mod 256) :: byte) = c mod 256"
    by (simp add: uint_word_of_int take_bit_eq_mod)
  ultimately show ?thesis
    by simp
qed

lemma low_word: "s AND 0xFFFF = s mod 0x10000" for s :: int
proof -
  have "s AND mask 16 = s mod 2 ^ 16"
    by (simp only: take_bit_eq_mask [symmetric] take_bit_eq_mod)
  then show ?thesis
    by (simp add: mask_eq_exp_minus_1)
qed

lemma fold_once_arith: "fold_once s = NOT (s mod 0x10000 + s div 0x10000) AND 0xFFFF"
  by (simp add: fold_once_def low_word drop_bit_eq_div)

lemma be_words_nth:
  "Suc (2 * k) < length xs \<Longrightarrow>
   be_words xs ! k = uint (xs ! (2 * k)) * 256 + uint (xs ! Suc (2 * k))"
proof (induction xs arbitrary: k rule: be_words.induct)
  case (1 x y rest)
  then show ?case by (cases k) simp_all
qed simp_all

lemma checksum_data_parts:
  assumes "ip_pseudo_header h = Some ph" and "checksum_data h = Inr cd"
  shows "cd = ph @ be_words (header h) @ be_words (padded_data h)"
  using assms
  by (auto simp: checksum_data_def struct_unpack_H_def split: sum.splits if_splits)

lemma checksum_field:
  assumes "18 \<le> length (header h)"
  shows "checksum h = Inr (be_words (header h) ! 8)"
proof -
  from assms have "Suc (2 * 8) < length (header h)"
    by simp
  then have "be_words (header h) ! 8 = uint (header h ! 16) * 256 + uint (header h ! 17)"
    by (simp only: be_words_nth) simp
  with slice_field [OF assms] show ?thesis
    by (simp add: checksum_def struct_unpack_H_def)
qed

text \<open>
  C5, as the claim states it: the word zeroed before summation is the checksum field,
  found from the length of the pseudo header. With a pseudo header of 20 words (the size
  of an IPv6 pseudo header) two headers that differ in the checksum field alone have
  different checksums: the field is part of the sum.
\<close>

theorem checksum_field_left_in_sum:
  "compute_checksum
     \<lparr>header = [0, 0, 0, 0, 0, 0, 0, 0, 0, 0, 0, 0, 0x50, 0, 0, 0, 0xAB, 0xCD, 0, 0],
      data = [],
      ip_pseudo_header = Some [0xFE80, 0, 0, 0, 0, 0, 0, 1, 0xFE80, 0, 0, 0, 0, 0, 0, 2,
        0, 20, 0, 6]\<rparr> = Inr 0x0713
   \<and> compute_checksum
     \<lparr>header = [0, 0, 0, 0, 0, 0, 0, 0, 0, 0, 0, 0, 0x50, 0, 0, 0, 0, 0, 0, 0],
      data = [],
      ip_pseudo_header = Some [0xFE80, 0, 0, 0, 0, 0, 0, 1, 0xFE80, 0, 0, 0, 0, 0, 0, 2,
        0, 20, 0, 6]\<rparr> = Inr 0xB2E0"
  by (simp add: compute_checksum_def checksum_data_def data_offset_def getitem_def
      struct_unpack_H_def padded_data_def fold_once_def)

text \<open>
  C5, amended: the word left out of the sum is the one at the fixed index 14, written
  \<^verbatim>\<open>6 + 8\<close>, of the combined word stream, whatever the length of the pseudo header
  (\<^verbatim>\<open>IndexError\<close> when the stream has no such word). The checksum field of a header of
  at least 18 bytes is the word at index (length of the pseudo header) + 8 of that
  stream, so the word left out is the checksum field when the pseudo header has 6
  elements.
\<close>

theorem checksum_zeroes_word_14:
  assumes ph: "ip_pseudo_header h = Some ph" and cd: "checksum_data h = Inr cd"
  shows "compute_checksum h =
           (if 14 < length cd then Inr (fold_once (sum_list cd - cd ! 14)) else Inl IndexError)
         \<and> (18 \<le> length (header h) \<longrightarrow>
              length ph + 8 < length cd \<and> checksum h = Inr (cd ! (length ph + 8)))"
proof
  show "compute_checksum h =
      (if 14 < length cd then Inr (fold_once (sum_list cd - cd ! 14)) else Inl IndexError)"
    by (simp add: compute_checksum_def cd sum_list_update_int)
  show "18 \<le> length (header h) \<longrightarrow>
      length ph + 8 < length cd \<and> checksum h = Inr (cd ! (length ph + 8))"
  proof
    assume len: "18 \<le> length (header h)"
    then have words: "8 < length (be_words (header h))"
      by (simp add: length_be_words)
    from checksum_data_parts [OF ph cd] words
    have "length ph + 8 < length cd" and "cd ! (length ph + 8) = be_words (header h) ! 8"
      by (simp_all add: nth_append)
    with checksum_field [OF len]
    show "length ph + 8 < length cd \<and> checksum h = Inr (cd ! (length ph + 8))"
      by simp
  qed
qed

theorem checksum_zeroes_word_14_witness:
  "checksum_data
     \<lparr>header = [0, 0, 0, 0, 0, 0, 0, 0, 0, 0, 0, 0, 0x50, 0, 0, 0, 0xAB, 0xCD, 0, 0],
      data = [1, 2, 3],
      ip_pseudo_header = Some [0xC0A8, 0x0001, 0xC0A8, 0x0002, 0x0006, 0x0017]\<rparr>
     = Inr [0xC0A8, 0x0001, 0xC0A8, 0x0002, 0x0006, 0x0017,
            0, 0, 0, 0, 0, 0, 0x5000, 0, 0xABCD, 0, 0x0102, 0x0300]
   \<and> compute_checksum
     \<lparr>header = [0, 0, 0, 0, 0, 0, 0, 0, 0, 0, 0, 0, 0x50, 0, 0, 0, 0xAB, 0xCD, 0, 0],
      data = [1, 2, 3],
      ip_pseudo_header = Some [0xC0A8, 0x0001, 0xC0A8, 0x0002, 0x0006, 0x0017]\<rparr>
     = Inr 0x2A8C
   \<and> checksum
     \<lparr>header = [0, 0, 0, 0, 0, 0, 0, 0, 0, 0, 0, 0, 0x50, 0, 0, 0, 0xAB, 0xCD, 0, 0],
      data = [1, 2, 3],
      ip_pseudo_header = Some [0xC0A8, 0x0001, 0xC0A8, 0x0002, 0x0006, 0x0017]\<rparr>
     = Inr 0xABCD"
proof -
  let ?ph = "[0xC0A8, 0x0001, 0xC0A8, 0x0002, 0x0006, 0x0017] :: int list"
  let ?h = "\<lparr>header = [0, 0, 0, 0, 0, 0, 0, 0, 0, 0, 0, 0, 0x50, 0, 0, 0, 0xAB, 0xCD, 0, 0],
    data = [1, 2, 3], ip_pseudo_header = Some ?ph\<rparr>"
  let ?cd = "[0xC0A8, 0x0001, 0xC0A8, 0x0002, 0x0006, 0x0017,
    0, 0, 0, 0, 0, 0, 0x5000, 0, 0xABCD, 0, 0x0102, 0x0300] :: int list"
  have ph: "ip_pseudo_header ?h = Some ?ph"
    by simp
  have cd: "checksum_data ?h = Inr ?cd"
    by (simp add: checksum_data_def data_offset_def getitem_def struct_unpack_H_def
        padded_data_def)
  from checksum_zeroes_word_14 [OF ph cd] cd show ?thesis
    by (simp add: fold_once_def)
qed

text \<open>
  C6, as the claim states it: after the computed checksum has been written into the
  field, recomputing gives 0. For a 23-byte segment with a zero checksum field the
  checksum is \<^verbatim>\<open>0x2A8C\<close>; with \<^verbatim>\<open>2A 8C\<close> written into bytes 16 and 17 the checksum
  is \<^verbatim>\<open>0x2A8C\<close> again.
\<close>

theorem recomputed_checksum_is_not_zero:
  "(case TcpHeader_init
          [0, 0, 0, 0, 0, 0, 0, 0, 0, 0, 0, 0, 0x50, 0, 0, 0, 0, 0, 0, 0, 1, 2, 3]
          (Some [0xC0A8, 0x0001, 0xC0A8, 0x0002, 0x0006, 0x0017]) of
      Inl e \<Rightarrow> Inl e
    | Inr h \<Rightarrow> compute_checksum h) = Inr 0x2A8C
   \<and> (case TcpHeader_init
          [0, 0, 0, 0, 0, 0, 0, 0, 0, 0, 0, 0, 0x50, 0, 0, 0, 0x2A, 0x8C, 0, 0, 1, 2, 3]
          (Some [0xC0A8, 0x0001, 0xC0A8, 0x0002, 0x0006, 0x0017]) of
      Inl e \<Rightarrow> Inl e
    | Inr h \<Rightarrow> compute_checksum h) = Inr 0x2A8C"
  by (simp add: TcpHeader_init_def getitem_def slice_def compute_checksum_def
      checksum_data_def data_offset_def struct_unpack_H_def padded_data_def fold_once_def)

text \<open>
  C6, amended: with a pseudo header of 6 elements and a buffer that holds bytes 16 and
  17, the checksum does not depend on the checksum field. After the computed checksum
  has been written into the field, big-endian, recomputing gives the same checksum again;
  it equals the field that \<^const>\<open>checksum\<close> then reads when the header has at least 18
  bytes, which is the comparison the module makes.
\<close>

theorem checksum_round_trip:
  assumes six: "length ph = 6" and field: "17 < length buf"
    and h: "TcpHeader_init buf (Some ph) = Inr h"
    and c: "compute_checksum h = Inr c"
    and h': "TcpHeader_init (buf[16 := word_of_int (c div 256), 17 := word_of_int (c mod 256)])
        (Some ph) = Inr h'"
  shows "compute_checksum h' = Inr c \<and> (18 \<le> length (header h') \<longrightarrow> checksum h' = Inr c)"
proof
  let ?hi = "word_of_int (c div 256) :: byte" and ?lo = "word_of_int (c mod 256) :: byte"
  let ?buf' = "buf[16 := ?hi, 17 := ?lo]"
  define n where "n = unat (drop_bit 2 (buf ! 12))"
  from field have long: "12 < length buf" and long': "12 < length ?buf'"
    by simp_all
  have n': "n = unat (drop_bit 2 (?buf' ! 12))"
    by (simp add: n_def)
  from init_eq [OF h] have h_eq: "h = \<lparr>header = take n buf, data = drop n buf,
      ip_pseudo_header = Some ph\<rparr>"
    by (simp add: n_def)
  from init_eq [OF h'] have h'_eq: "h' = \<lparr>header = take n ?buf', data = drop n ?buf',
      ip_pseudo_header = Some ph\<rparr>"
    by (simp add: n_def)
  have same: "(be_words (if odd (length buf) then ?buf' @ [0] else ?buf'))[8 := 0]
      = (be_words (if odd (length buf) then buf @ [0] else buf))[8 := 0]"
    by (simp only: be_words_field_update [OF field] list_update_overwrite)
  have "compute_checksum h' = compute_checksum h"
    unfolding h_eq h'_eq
    by (simp only: compute_checksum_init [OF long n_def six]
        compute_checksum_init [OF long' n' six] same length_list_update)
  with c show "compute_checksum h' = Inr c"
    by simp
  show "18 \<le> length (header h') \<longrightarrow> checksum h' = Inr c"
  proof
    assume len: "18 \<le> length (header h')"
    then have "17 < n"
      by (simp add: h'_eq)
    with field have "header h' ! 16 = ?hi" and "header h' ! 17 = ?lo"
      by (simp_all add: h'_eq)
    with slice_field [OF len] have "slice (header h') 16 18 = [?hi, ?lo]"
      by simp
    with two_bytes compute_checksum_range [OF c] show "checksum h' = Inr c"
      by (simp add: checksum_def struct_unpack_H_def)
  qed
qed

theorem checksum_round_trip_witness:
  "length [0xC0A8, 0x0001, 0xC0A8, 0x0002, 0x0006, 0x0017 :: int] = 6
   \<and> compute_checksum
        \<lparr>header = [0, 0, 0, 0, 0, 0, 0, 0, 0, 0, 0, 0, 0x50, 0, 0, 0, 0, 0, 0, 0],
         data = [1, 2, 3],
         ip_pseudo_header = Some [0xC0A8, 0x0001, 0xC0A8, 0x0002, 0x0006, 0x0017]\<rparr>
       = Inr 0x2A8C
   \<and> compute_checksum
        \<lparr>header = [0, 0, 0, 0, 0, 0, 0, 0, 0, 0, 0, 0, 0x50, 0, 0, 0, 0x2A, 0x8C, 0, 0],
         data = [1, 2, 3],
         ip_pseudo_header = Some [0xC0A8, 0x0001, 0xC0A8, 0x0002, 0x0006, 0x0017]\<rparr>
       = Inr 0x2A8C
   \<and> checksum
        \<lparr>header = [0, 0, 0, 0, 0, 0, 0, 0, 0, 0, 0, 0, 0x50, 0, 0, 0, 0x2A, 0x8C, 0, 0],
         data = [1, 2, 3],
         ip_pseudo_header = Some [0xC0A8, 0x0001, 0xC0A8, 0x0002, 0x0006, 0x0017]\<rparr>
       = Inr 0x2A8C"
proof -
  let ?ph = "[0xC0A8, 0x0001, 0xC0A8, 0x0002, 0x0006, 0x0017] :: int list"
  let ?buf = "[0, 0, 0, 0, 0, 0, 0, 0, 0, 0, 0, 0, 0x50, 0, 0, 0, 0, 0, 0, 0, 1, 2, 3] :: bytes"
  let ?h = "\<lparr>header = [0, 0, 0, 0, 0, 0, 0, 0, 0, 0, 0, 0, 0x50, 0, 0, 0, 0, 0, 0, 0],
    data = [1, 2, 3], ip_pseudo_header = Some ?ph\<rparr>"
  let ?h' = "\<lparr>header = [0, 0, 0, 0, 0, 0, 0, 0, 0, 0, 0, 0, 0x50, 0, 0, 0, 0x2A, 0x8C, 0, 0],
    data = [1, 2, 3], ip_pseudo_header = Some ?ph\<rparr>"
  have six: "length ?ph = 6" and field: "17 < length ?buf"
    by simp_all
  have h: "TcpHeader_init ?buf (Some ?ph) = Inr ?h"
    by (simp add: TcpHeader_init_def getitem_def slice_def)
  have c: "compute_checksum ?h = Inr 0x2A8C"
    by (simp add: compute_checksum_def checksum_data_def data_offset_def getitem_def
        struct_unpack_H_def padded_data_def fold_once_def)
  have h': "TcpHeader_init
      (?buf[16 := word_of_int (0x2A8C div 256), 17 := word_of_int (0x2A8C mod 256)])
      (Some ?ph) = Inr ?h'"
    by (simp add: TcpHeader_init_def getitem_def slice_def)
  from checksum_round_trip [OF six field h c h'] six c show ?thesis
    by simp
qed

text \<open>
  Where one fold leaves no carry, the single fold of the code is the folding of the
  specification.
\<close>

lemma single_fold_suffices:
  assumes "0 \<le> s" and "s mod 0x10000 + s div 0x10000 \<le> 0xFFFF"
  shows "fold_once s = NOT (spec_fold_carries s) AND 0xFFFF"
proof (cases "0xFFFF < s")
  case True
  with assms show ?thesis
    by (simp add: fold_once_arith spec_fold_carries.simps [of s]
        spec_fold_carries.simps [of "s mod 0x10000 + s div 0x10000"])
next
  case False
  with assms have "s mod 0x10000 = s" and "s div 0x10000 = 0"
    by simp_all
  with False show ?thesis
    by (simp add: fold_once_arith spec_fold_carries.simps [of s])
qed

text \<open>
  C7. The claim: the folding of the code is the fully folded one's-complement sum also
  when one fold leaves a carry. For a 24-byte segment whose words sum to \<^verbatim>\<open>0x1FFFF\<close>
  the single fold gives \<^verbatim>\<open>0x10000\<close>, whose complement has the low 16 bits \<^verbatim>\<open>0xFFFF\<close>,
  where folding until no carry remains gives \<^verbatim>\<open>0xFFFE\<close>, the value in the checksum field
  of that segment.
\<close>

theorem single_fold_drops_carry:
  "(case TcpHeader_init
          [0, 0, 0, 0, 0, 0, 0, 0, 0, 0, 0, 0, 0x50, 0, 0, 0, 0xFF, 0xFE, 0, 0,
           0x2E, 0x8E, 0, 0]
          (Some [0xC0A8, 0x0001, 0xC0A8, 0x0002, 0x0006, 0x0018]) of
      Inl e \<Rightarrow> (Inl e, Inl e, Inl e)
    | Inr h \<Rightarrow> (compute_checksum h, spec_compute_checksum h, checksum h))
   = (Inr 0xFFFF, Inr 0xFFFE, Inr 0xFFFE)"
proof -
  let ?h = "\<lparr>header = [0, 0, 0, 0, 0, 0, 0, 0, 0, 0, 0, 0, 0x50, 0, 0, 0, 0xFF, 0xFE, 0, 0],
    data = [0x2E, 0x8E, 0, 0],
    ip_pseudo_header = Some [0xC0A8, 0x0001, 0xC0A8, 0x0002, 0x0006, 0x0018]\<rparr>"
  have cd: "checksum_data ?h
      = Inr [49320, 1, 49320, 2, 6, 24, 0, 0, 0, 0, 0, 0, 20480, 0, 65534, 0, 11918, 0]"
    by (simp add: checksum_data_def data_offset_def getitem_def struct_unpack_H_def
        padded_data_def)
  have code: "compute_checksum ?h = Inr 0xFFFF"
    by (simp add: compute_checksum_def cd fold_once_def)
  have spec: "spec_compute_checksum ?h = Inr 0xFFFE"
    by (simp add: spec_compute_checksum_def cd spec_checksum_def spec_fold_carries.simps)
  have field: "checksum ?h = Inr 0xFFFE"
    by (simp add: checksum_def struct_unpack_H_def slice_def)
  show ?thesis
    by (simp add: TcpHeader_init_def getitem_def slice_def code spec field)
qed

end
